theory Spec2Isabelle
  imports Main
begin

section \<open>Terms, literals and clauses\<close>

text \<open>
  The grammar's classes. A proposition is a variable, a function application or a
  predicate application; the symbol indices are Python integers. A tuple of arguments
  is a list.
\<close>

datatype Proposition =
    Variable int
  | Function int "Proposition list"
  | Predicate int "Proposition list"

text \<open>The attributes \<open>index\<close> and \<open>arguments\<close>; a variable carries no arguments.\<close>

fun index :: "Proposition \<Rightarrow> int" where
  "index (Variable i) = i"
| "index (Function i args) = i"
| "index (Predicate i args) = i"

fun arguments :: "Proposition \<Rightarrow> Proposition list" where
  "arguments (Variable i) = []"
| "arguments (Function i args) = args"
| "arguments (Predicate i args) = args"

record Literal =
  negated :: bool
  atom :: Proposition

text \<open>
  A clause stores the tuple of literals it is built from, and its provenance: the
  program slices and concatenates \<open>literals\<close> as a tuple, and removes duplicates itself
  where it wants them removed (\<open>tuple(set(...))\<close> in \<open>paramodulation\<close>). A clause built
  from literals alone has no label, no parents and no rule.
\<close>

record Clause =
  literals :: "Literal list"
  label :: "string option"
  inference_parents :: "string option list option"
  inference_rule :: "string option"

definition Clause_of :: "Literal list \<Rightarrow> Clause" where
  "Clause_of ls =
     \<lparr>literals = ls, label = None, inference_parents = None, inference_rule = None\<rparr>"

datatype Substitution = Substitution (variable: Proposition) (term': Proposition)

text \<open>
  The exceptions of the program. \<open>NonUnifiableError\<close> carries the pair of propositions
  it was raised for; \<open>IndexError\<close> is what Python raises for a tuple index out of range.
\<close>

datatype error =
    NonUnifiableError Proposition Proposition
  | ValueError
  | IndexError
  | TermSelfReplace
  | IndexOutOfRange

text \<open>
  \<open>tuple(set(...))\<close>: Python enumerates a set in an order of its own, fixed by the
  hashes of the elements and the order of insertion. The order is a parameter of the
  model; every theorem below holds for every order. An order that does not enumerate
  the set once falls back on the order of first occurrence.
\<close>

type_synonym 'a set_order = "'a list \<Rightarrow> 'a list"

definition tuple_of_set :: "'a set_order \<Rightarrow> 'a list \<Rightarrow> 'a list" where
  "tuple_of_set order xs =
     (if distinct (order xs) \<and> set (order xs) = set xs then order xs else remdups xs)"

section \<open>Substitution and term utilities\<close>

text \<open>
  Modelled from the spec: \<open>Substitution.__call__\<close> of yapsap/substitution.py, which is
  not among the sources. It replaces every occurrence of the bound variable by the
  bound term and leaves everything else as it is.
\<close>

fun substitute :: "Substitution \<Rightarrow> Proposition \<Rightarrow> Proposition" where
  "substitute s (Variable i) = (if Variable i = variable s then term' s else Variable i)"
| "substitute s (Function f args) = Function f (map (substitute s) args)"
| "substitute s (Predicate p args) = Predicate p (map (substitute s) args)"

text \<open>
  Modelled from the spec: \<open>Substitution.substitute_in_clause\<close> of yapsap/substitution.py.
  It applies the substitution to the atom of every literal and keeps the provenance.
\<close>

definition substitute_in_clause :: "Substitution \<Rightarrow> Clause \<Rightarrow> Clause" where
  "substitute_in_clause s c =
     c\<lparr>literals := map (\<lambda>l. l\<lparr>atom := substitute s (atom l)\<rparr>) (literals c)\<rparr>"

text \<open>
  Modelled from the spec: \<open>is_subproposition\<close> of yapsap/utils.py (the occurs check):
  whether the first proposition appears anywhere in the structure of the second.
\<close>

fun is_subproposition :: "Proposition \<Rightarrow> Proposition \<Rightarrow> bool" where
  "is_subproposition one (Variable i) = (one = Variable i)"
| "is_subproposition one (Function f args) =
     (one = Function f args \<or> list_ex (is_subproposition one) args)"
| "is_subproposition one (Predicate p args) =
     (one = Predicate p args \<or> list_ex (is_subproposition one) args)"

text \<open>Modelled from the spec: \<open>proposition_length\<close> of yapsap/utils.py, the number of nodes.\<close>

fun proposition_length :: "Proposition \<Rightarrow> nat" where
  "proposition_length (Variable i) = 1"
| "proposition_length (Function f args) = 1 + sum_list (map proposition_length args)"
| "proposition_length (Predicate p args) = 1 + sum_list (map proposition_length args)"

text \<open>
  Modelled from the spec: \<open>subterm_by_index\<close> of yapsap/utils.py. Positions count the
  nodes in pre-order, 0 being the whole proposition; a position past the last node is
  an error.
\<close>

fun subterm_by_index :: "Proposition \<Rightarrow> nat \<Rightarrow> error + Proposition"
  and subterm_in_arguments :: "Proposition list \<Rightarrow> nat \<Rightarrow> error + Proposition" where
  "subterm_by_index p 0 = Inr p"
| "subterm_by_index (Variable i) (Suc k) = Inl IndexOutOfRange"
| "subterm_by_index (Function f args) (Suc k) = subterm_in_arguments args k"
| "subterm_by_index (Predicate p args) (Suc k) = subterm_in_arguments args k"
| "subterm_in_arguments [] k = Inl IndexOutOfRange"
| "subterm_in_arguments (a # as) k =
     (if k < proposition_length a then subterm_by_index a k
      else subterm_in_arguments as (k - proposition_length a))"

text \<open>
  Modelled from the spec: \<open>replace_subterm_by_index\<close> of yapsap/utils.py. Only the
  addressed occurrence is replaced; replacing a sub-term by itself is the degenerate
  replacement \<open>TermSelfReplace\<close>.
\<close>

fun replace_subterm_by_index :: "Proposition \<Rightarrow> nat \<Rightarrow> Proposition \<Rightarrow> error + Proposition"
  and replace_in_arguments ::
    "Proposition list \<Rightarrow> nat \<Rightarrow> Proposition \<Rightarrow> error + Proposition list" where
  "replace_subterm_by_index p 0 r = (if r = p then Inl TermSelfReplace else Inr r)"
| "replace_subterm_by_index (Variable i) (Suc k) r = Inl IndexOutOfRange"
| "replace_subterm_by_index (Function f args) (Suc k) r =
     (case replace_in_arguments args k r of
        Inl e \<Rightarrow> Inl e
      | Inr args' \<Rightarrow> Inr (Function f args'))"
| "replace_subterm_by_index (Predicate p args) (Suc k) r =
     (case replace_in_arguments args k r of
        Inl e \<Rightarrow> Inl e
      | Inr args' \<Rightarrow> Inr (Predicate p args'))"
| "replace_in_arguments [] k r = Inl IndexOutOfRange"
| "replace_in_arguments (a # as) k r =
     (if k < proposition_length a then
        (case replace_subterm_by_index a k r of
           Inl e \<Rightarrow> Inl e
         | Inr a' \<Rightarrow> Inr (a' # as))
      else
        (case replace_in_arguments as (k - proposition_length a) r of
           Inl e \<Rightarrow> Inl e
         | Inr as' \<Rightarrow> Inr (a # as')))"

section \<open>Unification\<close>

text \<open>
  \<open>_get_disagreement\<close>: the empty tuple is \<open>None\<close>, a pair of disagreeing sub-terms is
  \<open>Some\<close>. The loop over the zipped arguments is \<open>get_disagreement_zip\<close>.
\<close>

fun get_disagreement :: "Proposition \<Rightarrow> Proposition \<Rightarrow> (Proposition \<times> Proposition) option"
  and get_disagreement_zip ::
    "Proposition list \<Rightarrow> Proposition list \<Rightarrow> (Proposition \<times> Proposition) option" where
  "get_disagreement (Variable i) (Variable j) =
     (if i \<noteq> j then Some (Variable i, Variable j) else None)"
| "get_disagreement (Predicate i as) (Predicate j bs) =
     (if i \<noteq> j \<or> length as \<noteq> length bs then Some (Predicate i as, Predicate j bs)
      else get_disagreement_zip as bs)"
| "get_disagreement (Function i as) (Function j bs) =
     (if i \<noteq> j \<or> length as \<noteq> length bs then Some (Function i as, Function j bs)
      else get_disagreement_zip as bs)"
| "get_disagreement one two = Some (one, two)"
| "get_disagreement_zip [] bs = None"
| "get_disagreement_zip (a # as) [] = None"
| "get_disagreement_zip (a # as) (b # bs) =
     (case get_disagreement a b of
        None \<Rightarrow> get_disagreement_zip as bs
      | Some disagreement \<Rightarrow> Some disagreement)"

fun is_Variable :: "Proposition \<Rightarrow> bool" where
  "is_Variable (Variable i) = True"
| "is_Variable p = False"

fun is_Variable_or_Function :: "Proposition \<Rightarrow> bool" where
  "is_Variable_or_Function (Predicate p args) = False"
| "is_Variable_or_Function t = True"

text \<open>\<open>_propose_substitution\<close>; the error carries the first two propositions.\<close>

definition propose_substitution ::
  "Proposition \<times> Proposition \<Rightarrow> Proposition list \<Rightarrow> error + Substitution" where
  "propose_substitution disagreement propositions =
     (let substitution =
        (if is_Variable (fst disagreement) \<and> is_Variable_or_Function (snd disagreement)
         then Some (Substitution (fst disagreement) (snd disagreement))
         else if is_Variable (snd disagreement) \<and> is_Variable_or_Function (fst disagreement)
         then Some (Substitution (snd disagreement) (fst disagreement))
         else None)
      in case substitution of
           None \<Rightarrow> Inl (NonUnifiableError (propositions ! 0) (propositions ! 1))
         | Some s \<Rightarrow>
             if is_subproposition (variable s) (term' s)
             then Inl (NonUnifiableError (propositions ! 0) (propositions ! 1))
             else Inr s)"


text \<open>
  \<open>most_general_unifier\<close>. The optional accumulator is an \<open>option\<close>; indexing the tuple
  of propositions at 0 and 1 raises \<open>IndexError\<close> when it has fewer than two elements;
  the set comprehension over the rewritten propositions is \<open>tuple_of_set\<close>.
\<close>

function most_general_unifier ::
  "Proposition set_order \<Rightarrow> Proposition list \<Rightarrow> Substitution list option \<Rightarrow>
     error + Substitution list" where
  "most_general_unifier order propositions substitutions =
     (let not_none_substitutions = (case substitutions of None \<Rightarrow> [] | Some ss \<Rightarrow> ss) in
      if length propositions = 1 then Inr not_none_substitutions
      else if length propositions < 2 then Inl IndexError
      else
        (case get_disagreement (propositions ! 0) (propositions ! 1) of
           None \<Rightarrow> Inr []
         | Some disagreement \<Rightarrow>
             (case propose_substitution disagreement propositions of
                Inl e \<Rightarrow> Inl e
              | Inr substitution \<Rightarrow>
                  most_general_unifier order
                    (tuple_of_set order (map (substitute substitution) propositions))
                    (Some (not_none_substitutions @ [substitution])))))"
  by pat_completeness auto

section \<open>Factoring\<close>

text \<open>\<open>factoring\<close>; the loop over the substitutions is a fold.\<close>

definition factoring ::
  "Proposition set_order \<Rightarrow> Clause \<Rightarrow> Literal \<Rightarrow> Literal \<Rightarrow> error + Clause" where
  "factoring order given_clause literal_one literal_two =
     (if negated literal_one \<or> negated literal_two then Inl ValueError
      else
        (case most_general_unifier order [atom literal_one, atom literal_two] None of
           Inl e \<Rightarrow> Inl e
         | Inr substitutions \<Rightarrow>
             (let new_literals = literals given_clause @ [literal_one];
                  result = Clause_of new_literals
              in Inr (fold substitute_in_clause substitutions result))))"




section \<open>Paramodulation\<close>

text \<open>
  \<open>paramodulation\<close>. The arguments of the call of \<open>most_general_unifier\<close> are evaluated
  first, so a position out of range is reported before anything else.
\<close>

definition paramodulation ::
  "Proposition set_order \<Rightarrow> Literal set_order \<Rightarrow> Clause \<Rightarrow> Proposition \<times> Proposition \<Rightarrow>
     Clause \<Rightarrow> Literal \<Rightarrow> nat \<Rightarrow> error + Clause" where
  "paramodulation order lorder clause_one literal_one clause_two literal_two r_position =
     (case subterm_by_index (atom literal_two) r_position of
        Inl e \<Rightarrow> Inl e
      | Inr r \<Rightarrow>
     (case most_general_unifier order [fst literal_one, r] None of
        Inl e \<Rightarrow> Inl e
      | Inr substitutions \<Rightarrow>
     (case replace_subterm_by_index (atom literal_two) r_position (snd literal_one) of
        Inl e \<Rightarrow> Inl e
      | Inr new_atom \<Rightarrow>
          (let new_literals = tuple_of_set lorder
                 (\<lparr>negated = negated literal_two, atom = new_atom\<rparr>
                  # literals clause_one @ literals clause_two);
               result = Clause_of new_literals
           in Inr (fold substitute_in_clause substitutions result)))))"

text \<open>
  One \<open>try\<close> block of \<open>_equality_symmetry_paramodulation\<close>: a paramodulant is appended,
  \<open>NonUnifiableError\<close> and \<open>TermSelfReplace\<close> are passed over, any other exception goes on.
\<close>

fun try_paramodulation :: "Clause list \<Rightarrow> error + Clause \<Rightarrow> error + Clause list" where
  "try_paramodulation paramodulants (Inr paramodulant) = Inr (paramodulants @ [paramodulant])"
| "try_paramodulation paramodulants (Inl (NonUnifiableError p q)) = Inr paramodulants"
| "try_paramodulation paramodulants (Inl TermSelfReplace) = Inr paramodulants"
| "try_paramodulation paramodulants (Inl e) = Inl e"

definition equality_symmetry_paramodulation ::
  "Proposition set_order \<Rightarrow> Literal set_order \<Rightarrow> Clause \<Rightarrow> Literal \<Rightarrow> Clause \<Rightarrow> Literal \<Rightarrow>
     nat \<Rightarrow> error + Clause list" where
  "equality_symmetry_paramodulation order lorder clause_one literal_one clause_two literal_two k =
     (if length (arguments (atom literal_one)) < 2 then Inl IndexError
      else
        (case try_paramodulation []
                (paramodulation order lorder clause_one
                   (arguments (atom literal_one) ! 0, arguments (atom literal_one) ! 1)
                   clause_two literal_two k) of
           Inl e \<Rightarrow> Inl e
         | Inr paramodulants \<Rightarrow>
             try_paramodulation paramodulants
               (paramodulation order lorder clause_one
                  (arguments (atom literal_one) ! 1, arguments (atom literal_one) ! 0)
                  clause_two literal_two k)))"

text \<open>The loop over the positions \<open>k\<close> of \<open>all_paramodulants_from_clause\<close>.\<close>

fun paramodulants_over_positions ::
  "Proposition set_order \<Rightarrow> Literal set_order \<Rightarrow> Clause \<Rightarrow> Literal \<Rightarrow> Clause \<Rightarrow> Literal \<Rightarrow>
     nat list \<Rightarrow> Clause list \<Rightarrow> error + Clause list" where
  "paramodulants_over_positions order lorder clause_one literal_one clause_two literal_two
       [] paramodulants = Inr paramodulants"
| "paramodulants_over_positions order lorder clause_one literal_one clause_two literal_two
       (k # ks) paramodulants =
     (case equality_symmetry_paramodulation order lorder clause_one literal_one
             clause_two literal_two k of
        Inl e \<Rightarrow> Inl e
      | Inr new \<Rightarrow>
          paramodulants_over_positions order lorder clause_one literal_one clause_two
            literal_two ks (paramodulants @ new))"

text \<open>
  \<open>all_paramodulants_from_clause\<close>; the reserved index of the equality symbol,
  \<open>EQUALITY_SYMBOL_ID\<close> of the grammar, is a parameter.
\<close>

definition all_paramodulants_from_clause ::
  "Proposition set_order \<Rightarrow> Literal set_order \<Rightarrow> int \<Rightarrow> Clause \<Rightarrow> Literal \<Rightarrow> Clause \<Rightarrow>
     Literal \<Rightarrow> error + Clause list" where
  "all_paramodulants_from_clause order lorder EQUALITY_SYMBOL_ID clause_one literal_one
       clause_two literal_two =
     (if index (atom literal_one) \<noteq> EQUALITY_SYMBOL_ID
         \<or> negated literal_one
         \<or> length (arguments (atom literal_one)) \<noteq> 2
      then Inl ValueError
      else if arguments (atom literal_one) ! 0 = arguments (atom literal_one) ! 1 then Inr []
      else
        (let literal_two_len = proposition_length (atom literal_two)
         in paramodulants_over_positions order lorder clause_one literal_one clause_two
              literal_two [1 ..< literal_two_len] []))"

text \<open>One pass of the loop body of \<open>_get_new_paramodulants\<close>, and the loop over \<open>j\<close>.\<close>

definition extend_paramodulants ::
  "bool \<Rightarrow> error + Clause list \<Rightarrow> Clause list \<Rightarrow> error + Clause list" where
  "extend_paramodulants applicable new paramodulants =
     (if applicable then
        (case new of Inl e \<Rightarrow> Inl e | Inr ps \<Rightarrow> Inr (paramodulants @ ps))
      else Inr paramodulants)"

fun get_new_paramodulants_loop ::
  "Proposition set_order \<Rightarrow> Literal set_order \<Rightarrow> int \<Rightarrow> Clause \<Rightarrow> Literal \<Rightarrow> Clause \<Rightarrow>
     nat list \<Rightarrow> Clause list \<Rightarrow> error + Clause list" where
  "get_new_paramodulants_loop order lorder EQUALITY_SYMBOL_ID clause_one literal_one
       given_clause [] paramodulants = Inr paramodulants"
| "get_new_paramodulants_loop order lorder EQUALITY_SYMBOL_ID clause_one literal_one
       given_clause (j # js) paramodulants =
     (let literal_two = literals given_clause ! j;
          clause_two = Clause_of
            (take j (literals given_clause) @ drop (j + 1) (literals given_clause))
      in
        (case extend_paramodulants
                (\<not> negated literal_one \<and> index (atom literal_one) = EQUALITY_SYMBOL_ID)
                (all_paramodulants_from_clause order lorder EQUALITY_SYMBOL_ID
                   clause_one literal_one clause_two literal_two)
                paramodulants of
           Inl e \<Rightarrow> Inl e
         | Inr paramodulants1 \<Rightarrow>
        (case extend_paramodulants
                (\<not> negated literal_two \<and> index (atom literal_two) = EQUALITY_SYMBOL_ID)
                (all_paramodulants_from_clause order lorder EQUALITY_SYMBOL_ID
                   clause_two literal_two clause_one literal_one)
                paramodulants1 of
           Inl e \<Rightarrow> Inl e
         | Inr paramodulants2 \<Rightarrow>
             get_new_paramodulants_loop order lorder EQUALITY_SYMBOL_ID clause_one
               literal_one given_clause js paramodulants2)))"

definition get_new_paramodulants ::
  "Proposition set_order \<Rightarrow> Literal set_order \<Rightarrow> int \<Rightarrow> Clause \<Rightarrow> Literal \<Rightarrow> Clause \<Rightarrow>
     error + Clause list" where
  "get_new_paramodulants order lorder EQUALITY_SYMBOL_ID clause_one literal_one given_clause =
     get_new_paramodulants_loop order lorder EQUALITY_SYMBOL_ID clause_one literal_one
       given_clause [0 ..< length (literals given_clause)] []"

text \<open>
  \<open>all_paramodulants_from_list\<close>: the loop over the literals of one processed clause,
  and the loop over the processed clauses.
\<close>

fun paramodulants_of_clause ::
  "Proposition set_order \<Rightarrow> Literal set_order \<Rightarrow> int \<Rightarrow> Clause \<Rightarrow> Clause \<Rightarrow> nat list \<Rightarrow>
     Clause list \<Rightarrow> error + Clause list" where
  "paramodulants_of_clause order lorder EQUALITY_SYMBOL_ID other_clause given_clause
       [] paramodulants = Inr paramodulants"
| "paramodulants_of_clause order lorder EQUALITY_SYMBOL_ID other_clause given_clause
       (i # is) paramodulants =
     (let literal_one = literals other_clause ! i;
          clause_one = Clause_of
            (take i (literals other_clause) @ drop (i + 1) (literals other_clause))
      in
        (case get_new_paramodulants order lorder EQUALITY_SYMBOL_ID clause_one literal_one
                given_clause of
           Inl e \<Rightarrow> Inl e
         | Inr new_paramodulants \<Rightarrow>
             paramodulants_of_clause order lorder EQUALITY_SYMBOL_ID other_clause
               given_clause is
               (paramodulants
                @ map (\<lambda>paramodulant.
                    \<lparr>literals = literals paramodulant, label = None,
                     inference_parents = Some [label other_clause, label given_clause],
                     inference_rule = Some ''paramodulation''\<rparr>) new_paramodulants)))"

fun paramodulants_of_clauses ::
  "Proposition set_order \<Rightarrow> Literal set_order \<Rightarrow> int \<Rightarrow> Clause list \<Rightarrow> Clause \<Rightarrow>
     Clause list \<Rightarrow> error + Clause list" where
  "paramodulants_of_clauses order lorder EQUALITY_SYMBOL_ID [] given_clause paramodulants =
     Inr paramodulants"
| "paramodulants_of_clauses order lorder EQUALITY_SYMBOL_ID (other_clause # clauses)
       given_clause paramodulants =
     (case paramodulants_of_clause order lorder EQUALITY_SYMBOL_ID other_clause given_clause
             [0 ..< length (literals other_clause)] paramodulants of
        Inl e \<Rightarrow> Inl e
      | Inr paramodulants' \<Rightarrow>
          paramodulants_of_clauses order lorder EQUALITY_SYMBOL_ID clauses given_clause
            paramodulants')"

definition all_paramodulants_from_list ::
  "Proposition set_order \<Rightarrow> Literal set_order \<Rightarrow> int \<Rightarrow> Clause list \<Rightarrow> Clause \<Rightarrow>
     error + Clause list" where
  "all_paramodulants_from_list order lorder EQUALITY_SYMBOL_ID clauses given_clause =
     paramodulants_of_clauses order lorder EQUALITY_SYMBOL_ID clauses given_clause []"

section \<open>Variables of propositions\<close>

fun vars_of :: "Proposition \<Rightarrow> int set" where
  "vars_of (Variable i) = {i}"
| "vars_of (Function f args) = (\<Union>a \<in> set args. vars_of a)"
| "vars_of (Predicate p args) = (\<Union>a \<in> set args. vars_of a)"

definition vars_of_list :: "Proposition list \<Rightarrow> int set" where
  "vars_of_list ps = (\<Union>p \<in> set ps. vars_of p)"

text \<open>
  No substitution of the sequence has, in its term, the variable bound by a substitution
  that comes before it.
\<close>

fun no_reintroduction :: "Substitution list \<Rightarrow> bool" where
  "no_reintroduction [] = True"
| "no_reintroduction (s # ss) =
     ((\<forall>s' \<in> set ss. \<not> is_subproposition (variable s) (term' s')) \<and> no_reintroduction ss)"

text \<open>The paramodulants of one attempt: the clause of a success, nothing for a failure.\<close>

definition successes :: "error + Clause \<Rightarrow> Clause list" where
  "successes attempt = (case attempt of Inl e \<Rightarrow> [] | Inr paramodulant \<Rightarrow> [paramodulant])"

section \<open>Termination of unification\<close>

lemma finite_vars_of: "finite (vars_of p)"
  by (induction p) auto

lemma finite_vars_of_list: "finite (vars_of_list ps)"
  by (simp add: vars_of_list_def finite_vars_of)

lemma is_subproposition_Variable:
  "is_subproposition (Variable i) t \<longleftrightarrow> i \<in> vars_of t"
  by (induction t) (auto simp: list_ex_iff)

lemma get_disagreement_vars:
  "get_disagreement p q = Some d \<Longrightarrow>
     vars_of (fst d) \<subseteq> vars_of p \<and> vars_of (snd d) \<subseteq> vars_of q"
  "get_disagreement_zip ps qs = Some d \<Longrightarrow>
     vars_of (fst d) \<subseteq> (\<Union>a \<in> set ps. vars_of a) \<and>
     vars_of (snd d) \<subseteq> (\<Union>a \<in> set qs. vars_of a)"
proof (induction p q and ps qs arbitrary: d and d
    rule: get_disagreement_get_disagreement_zip.induct)
qed (auto split: if_splits option.splits)

lemma vars_of_substitute:
  "vars_of (substitute (Substitution (Variable i) t) p) =
     (if i \<in> vars_of p then vars_of p - {i} \<union> vars_of t else vars_of p)"
  by (induction p) (auto split: if_splits)

lemma propose_substitution_Inr:
  assumes "propose_substitution d ps = Inr s"
  shows "\<exists>i t. s = Substitution (Variable i) t \<and> i \<notin> vars_of t \<and>
    (d = (Variable i, t) \<or> d = (t, Variable i))"
proof -
  obtain a b where d: "d = (a, b)" by (cases d)
  show ?thesis
    using assms is_subproposition_Variable unfolding d
    by (cases a; cases b)
      (auto simp: propose_substitution_def Let_def list_ex_iff
        split: if_splits option.splits)
qed

lemma set_tuple_of_set: "set (tuple_of_set order xs) = set xs"
  by (simp add: tuple_of_set_def)

lemma distinct_tuple_of_set: "distinct (tuple_of_set order xs)"
  by (simp add: tuple_of_set_def)

lemma first_two_in_set:
  assumes "2 \<le> length ps"
  shows "ps ! 0 \<in> set ps" "ps ! 1 \<in> set ps"
proof -
  show "ps ! 0 \<in> set ps" using assms by (cases ps) auto
  show "ps ! 1 \<in> set ps" using assms by (intro nth_mem) arith
qed

text \<open>
  What one step does to the variables: the bound variable occurs in the propositions,
  its term brings no variable that is not there already, and the rewritten
  propositions have lost the bound variable.
\<close>

lemma step_substitution:
  assumes len: "2 \<le> length ps"
    and d: "get_disagreement (ps ! 0) (ps ! 1) = Some d"
    and s: "propose_substitution d ps = Inr s"
  shows "\<exists>i t. s = Substitution (Variable i) t \<and> i \<in> vars_of_list ps \<and>
    vars_of t \<subseteq> vars_of_list ps - {i} \<and>
    vars_of_list (tuple_of_set order (map (substitute s) ps)) \<subseteq> vars_of_list ps - {i}"
proof -
  from propose_substitution_Inr[OF s]
  obtain i t where st: "s = Substitution (Variable i) t" "i \<notin> vars_of t"
    "d = (Variable i, t) \<or> d = (t, Variable i)"
    by blast
  from get_disagreement_vars(1)[OF d] first_two_in_set[OF len]
  have sub: "vars_of (fst d) \<subseteq> vars_of_list ps" "vars_of (snd d) \<subseteq> vars_of_list ps"
    by (auto simp: vars_of_list_def)
  with st(3) have i_in: "i \<in> vars_of_list ps" and t_sub: "vars_of t \<subseteq> vars_of_list ps"
    by auto
  have "vars_of_list (tuple_of_set order (map (substitute s) ps)) \<subseteq> vars_of_list ps - {i}"
    using t_sub st(2)
    by (auto simp: vars_of_list_def set_tuple_of_set st(1) vars_of_substitute
        split: if_splits)
  with st(1,2) i_in t_sub show ?thesis by blast
qed

lemma step_vars:
  assumes "2 \<le> length ps"
    and "get_disagreement (ps ! 0) (ps ! 1) = Some d"
    and "propose_substitution d ps = Inr s"
  shows "vars_of_list (tuple_of_set order (map (substitute s) ps)) \<subset> vars_of_list ps"
  using step_substitution[OF assms, of order] by blast

text \<open>
  Every call of \<open>most_general_unifier\<close> is in the accessible part of its call relation:
  the number of distinct variables of the propositions decreases along the calls.
\<close>

lemma most_general_unifier_dom_all: "most_general_unifier_dom (order, ps, ss)"
proof (induction "card (vars_of_list ps)" arbitrary: ps ss rule: less_induct)
  case less
  show ?case
  proof (rule accpI)
    fix y
    assume "most_general_unifier_rel y (order, ps, ss)"
    then show "most_general_unifier_dom y"
    proof (cases rule: most_general_unifier_rel.cases)
      case (1 nn d s)
      from 1(3,4) have len: "2 \<le> length ps" by simp
      have "vars_of_list (tuple_of_set order (map (substitute s) ps))
          \<subset> vars_of_list ps"
        using len 1(5,6) by (rule step_vars)
      then have "card (vars_of_list (tuple_of_set order (map (substitute s) ps)))
          < card (vars_of_list ps)"
        by (simp add: psubset_card_mono finite_vars_of_list)
      from less[OF this] show ?thesis
        unfolding 1(1) .
    qed
  qed
qed

termination most_general_unifier
proof (rule allI)
  fix x :: "Proposition set_order \<times> Proposition list \<times> Substitution list option"
  obtain order ps ss where "x = (order, ps, ss)" by (cases x) auto
  then show "most_general_unifier_dom x"
    by (simp add: most_general_unifier_dom_all)
qed

declare most_general_unifier.simps [simp del]


section \<open>The three cases of a call\<close>

lemma propose_substitution_Inl:
  "propose_substitution d ps = Inl e \<Longrightarrow> e = NonUnifiableError (ps ! 0) (ps ! 1)"
  by (auto simp: propose_substitution_def Let_def split: if_splits option.splits)

lemma mgu_empty: "most_general_unifier order [] subs = Inl IndexError"
  by (subst most_general_unifier.simps) simp

lemma mgu_single:
  "length ps = 1 \<Longrightarrow>
     most_general_unifier order ps subs = Inr (case subs of None \<Rightarrow> [] | Some ss \<Rightarrow> ss)"
  by (subst most_general_unifier.simps) simp

lemma mgu_two_or_more:
  "2 \<le> length ps \<Longrightarrow>
     most_general_unifier order ps subs =
       (case get_disagreement (ps ! 0) (ps ! 1) of
          None \<Rightarrow> Inr []
        | Some d \<Rightarrow>
            (case propose_substitution d ps of
               Inl e \<Rightarrow> Inl e
             | Inr s \<Rightarrow>
                 most_general_unifier order (tuple_of_set order (map (substitute s) ps))
                   (Some ((case subs of None \<Rightarrow> [] | Some ss \<Rightarrow> ss) @ [s]))))"
  by (subst most_general_unifier.simps) (simp add: Let_def)

lemma length_classes:
  obtains (empty) "ps = []" | (single) "length ps = 1" | (more) "2 \<le> length ps"
proof -
  have "length ps = 0 \<or> length ps = 1 \<or> 2 \<le> length ps" by arith
  then show thesis using that by auto
qed

lemma mgu_cases:
  assumes "most_general_unifier order ps subs = Inr res"
  obtains (single) "length ps = 1" "res = (case subs of None \<Rightarrow> [] | Some ss \<Rightarrow> ss)"
  | (agree) "2 \<le> length ps" "get_disagreement (ps ! 0) (ps ! 1) = None" "res = []"
  | (step) d s where "2 \<le> length ps" "get_disagreement (ps ! 0) (ps ! 1) = Some d"
      "propose_substitution d ps = Inr s"
      "most_general_unifier order (tuple_of_set order (map (substitute s) ps))
         (Some ((case subs of None \<Rightarrow> [] | Some ss \<Rightarrow> ss) @ [s])) = Inr res"
proof (cases ps rule: length_classes)
  case empty
  with assms show ?thesis by (simp add: mgu_empty)
next
  case single
  with assms that(1) show ?thesis by (simp add: mgu_single)
next
  case more
  from assms show ?thesis
    unfolding mgu_two_or_more[OF more]
    using that(2,3)[OF more]
    by (auto split: option.splits sum.splits)
qed

lemma mgu_error_cases:
  assumes "most_general_unifier order ps subs = Inl e"
  obtains (short) "ps = []" "e = IndexError"
  | (fail) d where "2 \<le> length ps" "get_disagreement (ps ! 0) (ps ! 1) = Some d"
      "propose_substitution d ps = Inl e"
  | (step) d s where "2 \<le> length ps" "get_disagreement (ps ! 0) (ps ! 1) = Some d"
      "propose_substitution d ps = Inr s"
      "most_general_unifier order (tuple_of_set order (map (substitute s) ps))
         (Some ((case subs of None \<Rightarrow> [] | Some ss \<Rightarrow> ss) @ [s])) = Inl e"
proof (cases ps rule: length_classes)
  case empty
  with assms that(1) show ?thesis by (simp add: mgu_empty)
next
  case single
  with assms show ?thesis by (simp add: mgu_single)
next
  case more
  from assms show ?thesis
    unfolding mgu_two_or_more[OF more]
    using that(2,3)[OF more]
    by (auto split: option.splits sum.splits)
qed

section \<open>Soundness of the unifier\<close>

text \<open>Propositions without a disagreement are equal.\<close>

lemma get_disagreement_None:
  "get_disagreement p q = None \<Longrightarrow> p = q"
  "get_disagreement_zip ps qs = None \<Longrightarrow> length ps = length qs \<Longrightarrow> ps = qs"
proof (induction p q and ps qs rule: get_disagreement_get_disagreement_zip.induct)
qed (auto split: if_splits option.splits)

lemma mgu_unifies_distinct:
  "distinct ps \<Longrightarrow> most_general_unifier order ps subs = Inr res \<Longrightarrow>
   \<exists>new. res = (case subs of None \<Rightarrow> [] | Some ss \<Rightarrow> ss) @ new \<and>
     (\<forall>p\<in>set ps. \<forall>q\<in>set ps. fold substitute new p = fold substitute new q)"
proof (induction order ps subs arbitrary: res rule: most_general_unifier.induct)
  case (1 order ps subs)
  let ?nn = "case subs of None \<Rightarrow> [] | Some ss \<Rightarrow> ss"
  from "1.prems"(2) show ?case
  proof (cases rule: mgu_cases)
    case single
    then obtain x where "ps = [x]" by (cases ps) auto
    with single show ?thesis by (intro exI[of _ "[]"]) simp
  next
    case agree
    from agree(1) have "0 < length ps" "1 < length ps" by auto
    with nth_eq_iff_index_eq[OF "1.prems"(1), of 0 1] get_disagreement_None(1)[OF agree(2)]
    have False by simp
    then show ?thesis ..
  next
    case (step d s)
    from step(1) have l1: "length ps \<noteq> 1" and l2: "\<not> length ps < 2" by auto
    have "\<exists>new. res = (?nn @ [s]) @ new \<and>
      (\<forall>p\<in>set (map (substitute s) ps). \<forall>q\<in>set (map (substitute s) ps).
         fold substitute new p = fold substitute new q)"
      using "1.IH"[OF refl l1 l2 step(2,3) distinct_tuple_of_set step(4)]
      unfolding set_tuple_of_set option.case .
    then obtain new where new: "res = (?nn @ [s]) @ new"
      "\<forall>p\<in>set (map (substitute s) ps). \<forall>q\<in>set (map (substitute s) ps).
         fold substitute new p = fold substitute new q"
      by blast
    have eq: "res = ?nn @ (s # new)" using new(1) by simp
    have un: "\<forall>p\<in>set ps. \<forall>q\<in>set ps.
        fold substitute (s # new) p = fold substitute (s # new) q"
    proof (intro ballI)
      fix p q
      assume "p \<in> set ps" "q \<in> set ps"
      then have "substitute s p \<in> set (map (substitute s) ps)"
        "substitute s q \<in> set (map (substitute s) ps)"
        by simp_all
      with new(2) have "fold substitute new (substitute s p) = fold substitute new (substitute s q)"
        by blast
      then show "fold substitute (s # new) p = fold substitute (s # new) q"
        by simp
    qed
    show ?thesis
    proof (rule exI[of _ "s # new"], rule conjI)
      show "res = ?nn @ s # new" by (rule eq)
      show "\<forall>p\<in>set ps. \<forall>q\<in>set ps.
        fold substitute (s # new) p = fold substitute (s # new) q" by (rule un)
    qed
  qed
qed

text \<open>
  C1. Unifier soundness: whenever \<open>most_general_unifier\<close> succeeds on a pair of
  propositions \<open>(p, q)\<close>, applying the returned substitutions in order, in a single fold,
  to \<open>p\<close> and to \<open>q\<close> gives the same proposition.
\<close>

theorem mgu_sound:
  assumes "most_general_unifier order [p, q] None = Inr unifier"
  shows "fold substitute unifier p = fold substitute unifier q"
proof (cases "p = q")
  case True
  then show ?thesis by simp
next
  case False
  then have "distinct [p, q]" by simp
  from mgu_unifies_distinct[OF this assms]
  obtain new where new: "unifier = [] @ new"
    "\<forall>a\<in>set [p, q]. \<forall>b\<in>set [p, q]. fold substitute new a = fold substitute new b"
    unfolding option.case by blast
  have "p \<in> set [p, q]" "q \<in> set [p, q]" by simp_all
  with new(2) have "fold substitute new p = fold substitute new q" by blast
  with new(1) show ?thesis by simp
qed

theorem mgu_sound_witness:
  "most_general_unifier remdups
     [Predicate 8 [Variable 0, Variable 1, Function 0 [Variable 2]],
      Predicate 8 [Variable 4, Function 7 [Variable 5, Variable 5], Variable 5]] None =
   Inr [Substitution (Variable 0) (Variable 4),
        Substitution (Variable 1) (Function 7 [Variable 5, Variable 5]),
        Substitution (Variable 5) (Function 0 [Variable 2])]
   \<and> fold substitute
       [Substitution (Variable 0) (Variable 4),
        Substitution (Variable 1) (Function 7 [Variable 5, Variable 5]),
        Substitution (Variable 5) (Function 0 [Variable 2])]
       (Predicate 8 [Variable 0, Variable 1, Function 0 [Variable 2]]) =
     fold substitute
       [Substitution (Variable 0) (Variable 4),
        Substitution (Variable 1) (Function 7 [Variable 5, Variable 5]),
        Substitution (Variable 5) (Function 0 [Variable 2])]
       (Predicate 8 [Variable 4, Function 7 [Variable 5, Variable 5], Variable 5])"
proof -
  have h: "most_general_unifier remdups
     [Predicate 8 [Variable 0, Variable 1, Function 0 [Variable 2]],
      Predicate 8 [Variable 4, Function 7 [Variable 5, Variable 5], Variable 5]] None =
   Inr [Substitution (Variable 0) (Variable 4),
        Substitution (Variable 1) (Function 7 [Variable 5, Variable 5]),
        Substitution (Variable 5) (Function 0 [Variable 2])]"
    by code_simp
  show ?thesis by (rule conjI [OF h mgu_sound [OF h]])
qed

text \<open>
  C2 fails on the program: when the first two propositions of the input are equal,
  \<open>most_general_unifier\<close> returns the empty unifier without looking at the others.
  On \<open>(X0, X0, f1())\<close> it returns \<open>()\<close>, which leaves \<open>X0\<close> and \<open>f1()\<close> different.
\<close>

theorem mgu_first_two_equal:
  "most_general_unifier order [Variable 0, Variable 0, Function 1 []] None = Inr []
   \<and> fold substitute [] (Variable 0) \<noteq> fold substitute [] (Function 1 [])"
  by (subst most_general_unifier.simps) simp

section \<open>Termination and the empty input\<close>

text \<open>
  C7. A successful step of \<open>most_general_unifier\<close> (a substitution is proposed and the
  propositions are rewritten) strictly reduces the number of distinct variables of the
  propositions, and every call of \<open>most_general_unifier\<close> terminates: every argument
  is in the accessible part of the call relation.
\<close>

theorem mgu_step_reduces_variables:
  "(2 \<le> length propositions
      \<and> get_disagreement (propositions ! 0) (propositions ! 1) = Some disagreement
      \<and> propose_substitution disagreement propositions = Inr substitution
    \<longrightarrow> card (vars_of_list (tuple_of_set order (map (substitute substitution) propositions)))
          < card (vars_of_list propositions))
   \<and> most_general_unifier_dom (order, propositions, substitutions)"
proof (intro conjI impI)
  assume "2 \<le> length propositions
      \<and> get_disagreement (propositions ! 0) (propositions ! 1) = Some disagreement
      \<and> propose_substitution disagreement propositions = Inr substitution"
  then have "vars_of_list (tuple_of_set order (map (substitute substitution) propositions))
      \<subset> vars_of_list propositions"
    by (intro step_vars) auto
  then show "card (vars_of_list (tuple_of_set order (map (substitute substitution) propositions)))
          < card (vars_of_list propositions)"
    by (simp add: psubset_card_mono finite_vars_of_list)
next
  show "most_general_unifier_dom (order, propositions, substitutions)"
    by (rule most_general_unifier_dom_all)
qed

theorem mgu_step_reduces_variables_witness:
  "2 \<le> length [Variable 0, Function 7 [Variable 1]]
   \<and> get_disagreement ([Variable 0, Function 7 [Variable 1]] ! 0)
        ([Variable 0, Function 7 [Variable 1]] ! 1) = Some (Variable 0, Function 7 [Variable 1])
   \<and> propose_substitution (Variable 0, Function 7 [Variable 1])
        [Variable 0, Function 7 [Variable 1]]
      = Inr (Substitution (Variable 0) (Function 7 [Variable 1]))
   \<and> card (vars_of_list (tuple_of_set remdups
        (map (substitute (Substitution (Variable 0) (Function 7 [Variable 1])))
           [Variable 0, Function 7 [Variable 1]])))
     < card (vars_of_list [Variable 0, Function 7 [Variable 1]])"
proof -
  have h: "2 \<le> length [Variable 0, Function 7 [Variable 1]]
   \<and> get_disagreement ([Variable 0, Function 7 [Variable 1]] ! 0)
        ([Variable 0, Function 7 [Variable 1]] ! 1) = Some (Variable 0, Function 7 [Variable 1])
   \<and> propose_substitution (Variable 0, Function 7 [Variable 1])
        [Variable 0, Function 7 [Variable 1]]
      = Inr (Substitution (Variable 0) (Function 7 [Variable 1]))"
    by (simp add: propose_substitution_def)
  from mgu_step_reduces_variables[THEN conjunct1, THEN mp, OF h] h
  show ?thesis by blast
qed

text \<open>The errors of \<open>most_general_unifier\<close>.\<close>

lemma mgu_error_kind:
  "most_general_unifier order ps subs = Inl e \<Longrightarrow>
     (ps = [] \<and> e = IndexError) \<or> (\<exists>p q. e = NonUnifiableError p q)"
proof (induction order ps subs rule: most_general_unifier.induct)
  case (1 order ps subs)
  from "1.prems" show ?case
  proof (cases rule: mgu_error_cases)
    case short
    then show ?thesis by simp
  next
    case (fail d)
    from propose_substitution_Inl[OF fail(3)] show ?thesis by blast
  next
    case (step d s)
    from step(1) have l1: "length ps \<noteq> 1" and l2: "\<not> length ps < 2" by auto
    from step(1) have "map (substitute s) ps \<noteq> []" by auto
    then have "set (tuple_of_set order (map (substitute s) ps)) \<noteq> {}"
      unfolding set_tuple_of_set by simp
    then have ne: "tuple_of_set order (map (substitute s) ps) \<noteq> []" by auto
    from "1.IH"[OF refl l1 l2 step(2,3,4)] ne show ?thesis by blast
  qed
qed

text \<open>
  C10. On the empty tuple of propositions \<open>most_general_unifier\<close> neither returns a
  unifier nor reports non-unifiability: indexing the first element raises \<open>IndexError\<close>.
  On a non-empty tuple it never does.
\<close>

theorem mgu_empty_input:
  "most_general_unifier order [] substitutions = Inl IndexError
   \<and> (propositions \<noteq> [] \<longrightarrow>
        most_general_unifier order propositions substitutions \<noteq> Inl IndexError)"
proof (rule conjI)
  show "most_general_unifier order [] substitutions = Inl IndexError"
    by (subst most_general_unifier.simps) simp
  show "propositions \<noteq> [] \<longrightarrow>
        most_general_unifier order propositions substitutions \<noteq> Inl IndexError"
    using mgu_error_kind[of order propositions substitutions IndexError] by blast
qed

theorem mgu_empty_input_witness:
  "[Variable 0] \<noteq> [] \<and> most_general_unifier remdups [Variable 0] None \<noteq> Inl IndexError"
  using mgu_empty_input[of remdups None "[Variable 0]"] by blast

section \<open>The order of the bindings\<close>

lemma no_reintroduction_nth:
  "no_reintroduction ss \<Longrightarrow> i < j \<Longrightarrow> j < length ss \<Longrightarrow>
     \<not> is_subproposition (variable (ss ! i)) (term' (ss ! j))"
proof (induction ss arbitrary: i j)
  case Nil
  then show ?case by simp
next
  case (Cons s ss)
  from Cons.prems(2) obtain j' where j: "j = Suc j'" by (cases j) auto
  with Cons.prems(3) have j'_len: "j' < length ss" by simp
  show ?case
  proof (cases i)
    case 0
    from j'_len have "ss ! j' \<in> set ss" by simp
    with Cons.prems(1) have "\<not> is_subproposition (variable s) (term' (ss ! j'))" by simp
    with 0 j show ?thesis by simp
  next
    case (Suc i')
    with Cons.prems(2) j have "i' < j'" by simp
    from Cons.IH[OF _ this j'_len] Cons.prems(1)
    have "\<not> is_subproposition (variable (ss ! i')) (term' (ss ! j'))" by simp
    with Suc j show ?thesis by simp
  qed
qed

lemma mgu_new_bindings:
  "most_general_unifier order ps subs = Inr res \<Longrightarrow>
   res = [] \<or> (\<exists>new. res = (case subs of None \<Rightarrow> [] | Some ss \<Rightarrow> ss) @ new \<and>
     no_reintroduction new \<and> (\<forall>s\<in>set new. vars_of (term' s) \<subseteq> vars_of_list ps))"
proof (induction order ps subs arbitrary: res rule: most_general_unifier.induct)
  case (1 order ps subs)
  let ?nn = "case subs of None \<Rightarrow> [] | Some ss \<Rightarrow> ss"
  from "1.prems" show ?case
  proof (cases rule: mgu_cases)
    case single
    then have "res = ?nn @ [] \<and> no_reintroduction [] \<and>
        (\<forall>s\<in>set []. vars_of (term' s) \<subseteq> vars_of_list ps)" by simp
    then show ?thesis by blast
  next
    case agree
    then show ?thesis by simp
  next
    case (step d s)
    let ?ps' = "tuple_of_set order (map (substitute s) ps)"
    from step(1) have l1: "length ps \<noteq> 1" and l2: "\<not> length ps < 2" by auto
    from step_substitution[OF step(1,2,3), of order]
    obtain i t where st: "s = Substitution (Variable i) t" "i \<in> vars_of_list ps"
      "vars_of t \<subseteq> vars_of_list ps - {i}" "vars_of_list ?ps' \<subseteq> vars_of_list ps - {i}"
      by blast
    have ih: "res = [] \<or> (\<exists>new. res = (?nn @ [s]) @ new \<and> no_reintroduction new \<and>
        (\<forall>s\<in>set new. vars_of (term' s) \<subseteq> vars_of_list ?ps'))"
      using "1.IH"[OF refl l1 l2 step(2,3,4)] unfolding option.case .
    show ?thesis
    proof (cases "res = []")
      case True
      then show ?thesis by simp
    next
      case False
      with ih obtain new where new: "res = (?nn @ [s]) @ new" "no_reintroduction new"
        "\<forall>s\<in>set new. vars_of (term' s) \<subseteq> vars_of_list ?ps'"
        by blast
      have a: "res = ?nn @ (s # new)" using new(1) by simp
      have "\<forall>s'\<in>set new. i \<notin> vars_of (term' s')"
        using new(3) st(4) by blast
      then have b: "no_reintroduction (s # new)"
        using new(2) by (simp add: st(1) is_subproposition_Variable)
      have c: "\<forall>s'\<in>set (s # new). vars_of (term' s') \<subseteq> vars_of_list ps"
        using new(3) st(3,4) by (auto simp: st(1))
      from a b c show ?thesis by blast
    qed
  qed
qed

text \<open>
  C8. In a unifier returned by \<open>most_general_unifier\<close>, for positions \<open>i < j\<close>, the
  variable bound by the \<open>i\<close>-th substitution does not occur in the term of the \<open>j\<close>-th:
  no later binding brings back a variable that an earlier binding eliminated.
\<close>

theorem mgu_no_reintroduction:
  assumes "most_general_unifier order propositions None = Inr unifier"
    and "i < j" and "j < length unifier"
  shows "\<not> is_subproposition (variable (unifier ! i)) (term' (unifier ! j))"
proof -
  from mgu_new_bindings[OF assms(1)] have "no_reintroduction unifier"
    by auto
  from no_reintroduction_nth[OF this assms(2,3)] show ?thesis .
qed

theorem mgu_no_reintroduction_witness:
  "most_general_unifier remdups
     [Predicate 8 [Variable 0, Variable 1, Function 0 [Variable 2]],
      Predicate 8 [Variable 4, Function 7 [Variable 5, Variable 5], Variable 5]] None =
   Inr [Substitution (Variable 0) (Variable 4),
        Substitution (Variable 1) (Function 7 [Variable 5, Variable 5]),
        Substitution (Variable 5) (Function 0 [Variable 2])]
   \<and> (1::nat) < 2
   \<and> 2 < length [Substitution (Variable 0) (Variable 4),
        Substitution (Variable 1) (Function 7 [Variable 5, Variable 5]),
        Substitution (Variable 5) (Function 0 [Variable 2])]
   \<and> \<not> is_subproposition
       (variable ([Substitution (Variable 0) (Variable 4),
          Substitution (Variable 1) (Function 7 [Variable 5, Variable 5]),
          Substitution (Variable 5) (Function 0 [Variable 2])] ! 1))
       (term' ([Substitution (Variable 0) (Variable 4),
          Substitution (Variable 1) (Function 7 [Variable 5, Variable 5]),
          Substitution (Variable 5) (Function 0 [Variable 2])] ! 2))"
proof -
  have h: "most_general_unifier remdups
     [Predicate 8 [Variable 0, Variable 1, Function 0 [Variable 2]],
      Predicate 8 [Variable 4, Function 7 [Variable 5, Variable 5], Variable 5]] None =
   Inr [Substitution (Variable 0) (Variable 4),
        Substitution (Variable 1) (Function 7 [Variable 5, Variable 5]),
        Substitution (Variable 5) (Function 0 [Variable 2])]"
    by code_simp
  have i: "(1::nat) < 2" by simp
  have j: "2 < length [Substitution (Variable 0) (Variable 4),
        Substitution (Variable 1) (Function 7 [Variable 5, Variable 5]),
        Substitution (Variable 5) (Function 0 [Variable 2])]" by simp
  show ?thesis
    by (intro conjI h i j mgu_no_reintroduction [OF h i j])
qed

section \<open>The factoring rule\<close>

text \<open>Applying the substitutions to a clause one after the other applies their fold to
  the atom of every literal.\<close>

lemma fold_substitute_in_clause:
  "fold substitute_in_clause subs c =
     c\<lparr>literals := map (\<lambda>l. l\<lparr>atom := fold substitute subs (atom l)\<rparr>) (literals c)\<rparr>"
proof (induction subs arbitrary: c)
  case Nil
  then show ?case by simp
next
  case (Cons s subs)
  have "fold substitute_in_clause (s # subs) c =
      fold substitute_in_clause subs (substitute_in_clause s c)"
    by simp
  also have "\<dots> = (substitute_in_clause s c)\<lparr>literals :=
      map (\<lambda>l. l\<lparr>atom := fold substitute subs (atom l)\<rparr>)
        (literals (substitute_in_clause s c))\<rparr>"
    by (rule Cons.IH)
  also have "\<dots> = c\<lparr>literals :=
      map (\<lambda>l. l\<lparr>atom := fold substitute (s # subs) (atom l)\<rparr>) (literals c)\<rparr>"
    by (simp add: substitute_in_clause_def comp_def)
  finally show ?case .
qed

lemma mgu_pair_error:
  assumes "most_general_unifier order [p, q] None = Inl e"
  shows "\<exists>a b. e = NonUnifiableError a b"
  using mgu_error_kind[OF assms] by simp

text \<open>
  C3. \<open>factoring\<close> fails with \<open>ValueError\<close> exactly when one of the two literals is
  negated. When both are positive it computes the unifier of the two atoms: a failure
  of unification, which is a \<open>NonUnifiableError\<close>, is the failure of \<open>factoring\<close>;
  otherwise the result is the clause of the literals of the given clause followed by
  the first literal, with every substitution of the unifier applied in order, and
  without provenance.
\<close>

theorem factoring_spec:
  "(factoring order clause literal_one literal_two = Inl ValueError
      \<longleftrightarrow> negated literal_one \<or> negated literal_two)
   \<and> (\<not> negated literal_one \<and> \<not> negated literal_two \<longrightarrow>
        (case most_general_unifier order [atom literal_one, atom literal_two] None of
           Inl e \<Rightarrow>
             factoring order clause literal_one literal_two = Inl e
             \<and> (\<exists>p q. e = NonUnifiableError p q)
         | Inr mgu \<Rightarrow>
             factoring order clause literal_one literal_two =
               Inr \<lparr>literals =
                      map (\<lambda>l. l\<lparr>atom := fold substitute mgu (atom l)\<rparr>)
                        (literals clause @ [literal_one]),
                    label = None, inference_parents = None, inference_rule = None\<rparr>))"
proof (cases "most_general_unifier order [atom literal_one, atom literal_two] None")
  case (Inl e)
  from mgu_pair_error[OF Inl] obtain p q where "e = NonUnifiableError p q" by blast
  with Inl show ?thesis by (simp add: factoring_def)
next
  case (Inr mgu)
  then show ?thesis
    by (simp add: factoring_def fold_substitute_in_clause Clause_of_def)
qed

theorem factoring_spec_witness:
  "\<not> negated \<lparr>negated = False, atom = Predicate 9 [Variable 0]\<rparr>
   \<and> \<not> negated \<lparr>negated = False, atom = Predicate 9 [Function 0 []]\<rparr>
   \<and> factoring remdups (Clause_of [\<lparr>negated = True, atom = Predicate 8 [Variable 0]\<rparr>])
        \<lparr>negated = False, atom = Predicate 9 [Variable 0]\<rparr>
        \<lparr>negated = False, atom = Predicate 9 [Function 0 []]\<rparr>
     = Inr \<lparr>literals =
              [\<lparr>negated = True, atom = Predicate 8 [Function 0 []]\<rparr>,
               \<lparr>negated = False, atom = Predicate 9 [Function 0 []]\<rparr>],
            label = None, inference_parents = None, inference_rule = None\<rparr>"
proof -
  have h: "\<not> negated \<lparr>negated = False, atom = Predicate 9 [Variable 0]\<rparr>
      \<and> \<not> negated \<lparr>negated = False, atom = Predicate 9 [Function 0 []]\<rparr>"
    by simp
  have m: "most_general_unifier remdups
      [atom \<lparr>negated = False, atom = Predicate 9 [Variable 0]\<rparr>,
       atom \<lparr>negated = False, atom = Predicate 9 [Function 0 []]\<rparr>] None
      = Inr [Substitution (Variable 0) (Function 0 [])]"
    by code_simp
  from factoring_spec[THEN conjunct2, THEN mp, OF h,
      of remdups "Clause_of [\<lparr>negated = True, atom = Predicate 8 [Variable 0]\<rparr>]"]
  have "factoring remdups (Clause_of [\<lparr>negated = True, atom = Predicate 8 [Variable 0]\<rparr>])
        \<lparr>negated = False, atom = Predicate 9 [Variable 0]\<rparr>
        \<lparr>negated = False, atom = Predicate 9 [Function 0 []]\<rparr>
     = Inr \<lparr>literals =
              [\<lparr>negated = True, atom = Predicate 8 [Function 0 []]\<rparr>,
               \<lparr>negated = False, atom = Predicate 9 [Function 0 []]\<rparr>],
            label = None, inference_parents = None, inference_rule = None\<rparr>"
    unfolding m by (simp add: Clause_of_def)
  with h show ?thesis by blast
qed

section \<open>The precondition of paramodulation\<close>

text \<open>
  C5. \<open>all_paramodulants_from_clause\<close> fails with \<open>ValueError\<close> when its equality
  literal is negated, has another index than the equality symbol, or does not have
  exactly two arguments; it returns the empty tuple when the literal is a positive
  equality whose two arguments are equal.
\<close>

theorem all_paramodulants_from_clause_precondition:
  "(negated literal_one \<or> index (atom literal_one) \<noteq> EQUALITY_SYMBOL_ID
      \<or> length (arguments (atom literal_one)) \<noteq> 2
    \<longrightarrow> all_paramodulants_from_clause order lorder EQUALITY_SYMBOL_ID
          clause_one literal_one clause_two literal_two = Inl ValueError)
   \<and> (\<not> negated literal_one \<and> index (atom literal_one) = EQUALITY_SYMBOL_ID
      \<and> length (arguments (atom literal_one)) = 2
      \<and> arguments (atom literal_one) ! 0 = arguments (atom literal_one) ! 1
    \<longrightarrow> all_paramodulants_from_clause order lorder EQUALITY_SYMBOL_ID
          clause_one literal_one clause_two literal_two = Inr [])"
  by (auto simp: all_paramodulants_from_clause_def)

theorem all_paramodulants_from_clause_precondition_witness:
  "(negated \<lparr>negated = True, atom = Predicate 0 [Function 1 [], Function 2 []]\<rparr>
      \<or> index (atom \<lparr>negated = True, atom = Predicate 0 [Function 1 [], Function 2 []]\<rparr>) \<noteq> 0
      \<or> length (arguments
            (atom \<lparr>negated = True, atom = Predicate 0 [Function 1 [], Function 2 []]\<rparr>)) \<noteq> 2)
   \<and> all_paramodulants_from_clause remdups remdups 0 (Clause_of [])
        \<lparr>negated = True, atom = Predicate 0 [Function 1 [], Function 2 []]\<rparr>
        (Clause_of []) \<lparr>negated = False, atom = Predicate 3 [Function 1 []]\<rparr> = Inl ValueError
   \<and> (\<not> negated \<lparr>negated = False, atom = Predicate 0 [Variable 0, Variable 0]\<rparr>
      \<and> index (atom \<lparr>negated = False, atom = Predicate 0 [Variable 0, Variable 0]\<rparr>) = 0
      \<and> length (arguments
            (atom \<lparr>negated = False, atom = Predicate 0 [Variable 0, Variable 0]\<rparr>)) = 2
      \<and> arguments (atom \<lparr>negated = False, atom = Predicate 0 [Variable 0, Variable 0]\<rparr>) ! 0
        = arguments (atom \<lparr>negated = False, atom = Predicate 0 [Variable 0, Variable 0]\<rparr>) ! 1)
   \<and> all_paramodulants_from_clause remdups remdups 0 (Clause_of [])
        \<lparr>negated = False, atom = Predicate 0 [Variable 0, Variable 0]\<rparr>
        (Clause_of []) \<lparr>negated = False, atom = Predicate 3 [Function 1 []]\<rparr> = Inr []"
proof -
  have h1: "negated \<lparr>negated = True, atom = Predicate 0 [Function 1 [], Function 2 []]\<rparr>
      \<or> index (atom \<lparr>negated = True, atom = Predicate 0 [Function 1 [], Function 2 []]\<rparr>) \<noteq> 0
      \<or> length (arguments
            (atom \<lparr>negated = True, atom = Predicate 0 [Function 1 [], Function 2 []]\<rparr>)) \<noteq> 2"
    by simp
  have h2: "\<not> negated \<lparr>negated = False, atom = Predicate 0 [Variable 0, Variable 0]\<rparr>
      \<and> index (atom \<lparr>negated = False, atom = Predicate 0 [Variable 0, Variable 0]\<rparr>) = 0
      \<and> length (arguments
            (atom \<lparr>negated = False, atom = Predicate 0 [Variable 0, Variable 0]\<rparr>)) = 2
      \<and> arguments (atom \<lparr>negated = False, atom = Predicate 0 [Variable 0, Variable 0]\<rparr>) ! 0
        = arguments (atom \<lparr>negated = False, atom = Predicate 0 [Variable 0, Variable 0]\<rparr>) ! 1"
    by simp
  show ?thesis
    by (intro conjI h1 h2
        all_paramodulants_from_clause_precondition[THEN conjunct1, THEN mp, OF h1]
        all_paramodulants_from_clause_precondition[THEN conjunct2, THEN mp, OF h2])
qed

section \<open>Provenance of the inferred clauses\<close>





section \<open>Duplicate literals\<close>




section \<open>The positions of paramodulation\<close>

text \<open>A position below the size of the atom is in range for both utilities.\<close>

lemma subterm_in_range:
  "k < proposition_length p \<Longrightarrow> \<exists>r. subterm_by_index p k = Inr r"
  "k < sum_list (map proposition_length args) \<Longrightarrow> \<exists>r. subterm_in_arguments args k = Inr r"
proof (induction p k and args k rule: subterm_by_index_subterm_in_arguments.induct)
qed auto

lemma replace_in_range:
  "k < proposition_length p \<Longrightarrow>
     replace_subterm_by_index p k r = Inl TermSelfReplace
     \<or> (\<exists>p'. replace_subterm_by_index p k r = Inr p')"
  "k < sum_list (map proposition_length args) \<Longrightarrow>
     replace_in_arguments args k r = Inl TermSelfReplace
     \<or> (\<exists>args'. replace_in_arguments args k r = Inr args')"
proof (induction p k r and args k r rule: replace_subterm_by_index_replace_in_arguments.induct)
qed (auto split: sum.splits)

lemma paramodulation_in_range:
  assumes "k < proposition_length (atom literal_two)"
  shows "(\<exists>c. paramodulation order lorder clause_one st clause_two literal_two k = Inr c)
    \<or> (\<exists>p q. paramodulation order lorder clause_one st clause_two literal_two k
          = Inl (NonUnifiableError p q))
    \<or> paramodulation order lorder clause_one st clause_two literal_two k = Inl TermSelfReplace"
proof -
  from subterm_in_range(1)[OF assms] obtain r where
    r: "subterm_by_index (atom literal_two) k = Inr r" by blast
  show ?thesis
  proof (cases "most_general_unifier order [fst st, r] None")
    case (Inl e)
    from mgu_pair_error[OF Inl] obtain p q where "e = NonUnifiableError p q" by blast
    with Inl r show ?thesis by (simp add: paramodulation_def)
  next
    case (Inr mgu)
    from replace_in_range(1)[OF assms, of "snd st"] Inr r show ?thesis
      by (auto simp: paramodulation_def Let_def)
  qed
qed

lemma try_paramodulation_in_range:
  assumes "k < proposition_length (atom literal_two)"
  shows "try_paramodulation acc
      (paramodulation order lorder clause_one st clause_two literal_two k)
    = Inr (acc @ successes
      (paramodulation order lorder clause_one st clause_two literal_two k))"
  using paramodulation_in_range[OF assms, of order lorder clause_one st clause_two]
  by (auto simp: successes_def)

lemma equality_symmetry_in_range:
  assumes "k < proposition_length (atom literal_two)"
    and "arguments (atom literal_one) = [s, t]"
  shows "equality_symmetry_paramodulation order lorder clause_one literal_one clause_two
      literal_two k
    = Inr (successes (paramodulation order lorder clause_one (s, t) clause_two literal_two k)
         @ successes (paramodulation order lorder clause_one (t, s) clause_two literal_two k))"
  by (simp add: equality_symmetry_paramodulation_def assms(2)
      try_paramodulation_in_range[OF assms(1)])

lemma paramodulants_over_positions_in_range:
  assumes "\<forall>k\<in>set ks. k < proposition_length (atom literal_two)"
    and "arguments (atom literal_one) = [s, t]"
  shows "paramodulants_over_positions order lorder clause_one literal_one clause_two
      literal_two ks acc
    = Inr (acc @ concat (map (\<lambda>k.
        successes (paramodulation order lorder clause_one (s, t) clause_two literal_two k)
        @ successes (paramodulation order lorder clause_one (t, s) clause_two literal_two k))
       ks))"
  using assms(1)
proof (induction ks arbitrary: acc)
  case Nil
  then show ?case by simp
next
  case (Cons k ks)
  from Cons.prems have k: "k < proposition_length (atom literal_two)"
    and ks: "\<forall>k\<in>set ks. k < proposition_length (atom literal_two)"
    by simp_all
  show ?case
    by (simp add: equality_symmetry_in_range[OF k assms(2)] Cons.IH[OF ks])
qed

lemma all_paramodulants_from_clause_positions:
  assumes "\<not> negated literal_one" "index (atom literal_one) = EQUALITY_SYMBOL_ID"
    "arguments (atom literal_one) = [s, t]" "s \<noteq> t"
  shows "all_paramodulants_from_clause order lorder EQUALITY_SYMBOL_ID clause_one literal_one
      clause_two literal_two
    = Inr (concat (map (\<lambda>k.
        successes (paramodulation order lorder clause_one (s, t) clause_two literal_two k)
        @ successes (paramodulation order lorder clause_one (t, s) clause_two literal_two k))
       [1 ..< proposition_length (atom literal_two)]))"
proof -
  have "\<forall>k\<in>set [1 ..< proposition_length (atom literal_two)].
      k < proposition_length (atom literal_two)" by simp
  from paramodulants_over_positions_in_range[OF this assms(3)] assms show ?thesis
    by (simp add: all_paramodulants_from_clause_def Let_def)
qed


lemma tuple_of_set_same: "tuple_of_set order [x, x] = [x]"
proof -
  let ?ys = "tuple_of_set order [x, x]"
  have d: "distinct ?ys" by (rule distinct_tuple_of_set)
  have s: "set ?ys = {x}" by (simp add: set_tuple_of_set)
  from s obtain y ys where c: "?ys = y # ys" by (cases ?ys) auto
  with s have y: "y = x" by auto
  from c d s y have "set ys \<subseteq> {x}" "x \<notin> set ys" by auto
  then have "ys = []" by (cases ys) auto
  with c y show ?thesis by simp
qed

lemma mgu_constants:
  "most_general_unifier order [Function f [], Function g []] None =
     (if f = g then Inr []
      else Inl (NonUnifiableError (Function f []) (Function g [])))"
  by (simp add: mgu_two_or_more propose_substitution_def)

lemma mgu_constant_variable:
  "most_general_unifier order [Function f [], Variable x] None =
     Inr [Substitution (Variable x) (Function f [])]"
  by (simp add: mgu_two_or_more propose_substitution_def tuple_of_set_same mgu_single)

lemma upt_1_3: "[1 ..< 3] = [1, 2]"
  by code_simp

lemma upt_0_2: "[0 ..< 2] = [0, 1]"
  by code_simp

lemma upt_0_1: "[0 ..< 1] = [0]"
  by code_simp

lemma example_count:
  assumes "a \<noteq> b" "b \<noteq> a" "a \<noteq> c" "c \<noteq> a" "b \<noteq> c" "c \<noteq> b"
  shows "\<exists>ps. all_paramodulants_from_list order lorder eq
       [\<lparr>literals =
           [\<lparr>negated = False, atom = Predicate eq [Function a [], Function b []]\<rparr>,
            \<lparr>negated = False, atom = Predicate eq [Variable x, Variable x]\<rparr>],
         label = Some ''one'', inference_parents = None, inference_rule = None\<rparr>]
       \<lparr>literals = [\<lparr>negated = False, atom = Predicate eq [Function b [], Function c []]\<rparr>],
        label = Some ''two'', inference_parents = None, inference_rule = None\<rparr>
     = Inr ps \<and> length ps = 6"
  using assms
  by (simp add: all_paramodulants_from_list_def get_new_paramodulants_def
      extend_paramodulants_def all_paramodulants_from_clause_def
      equality_symmetry_paramodulation_def paramodulation_def Let_def
      mgu_constants mgu_constant_variable upt_1_3 upt_0_2 upt_0_1)

text \<open>
  C4. For \<open>one = (a = b | X = X)\<close> and \<open>two = (b = c)\<close>, with distinct constants \<open>a\<close>,
  \<open>b\<close> and \<open>c\<close>, \<open>all_paramodulants_from_list\<close> on \<open>(one,)\<close> and \<open>two\<close> returns exactly
  6 clauses. The loop of \<open>all_paramodulants_from_clause\<close> over a positive equality
  \<open>s = t\<close> with different sides goes through the positions 1 to size - 1 of the atom of
  the rewritten literal, tries each with \<open>(s, t)\<close> and with \<open>(t, s)\<close>, keeps the successes
  and passes over the failures.
\<close>

theorem paramodulation_example:
  "(distinct [a, b, c] \<longrightarrow>
      (\<exists>paramodulants.
         all_paramodulants_from_list order lorder EQUALITY_SYMBOL_ID
           [\<lparr>literals =
           [\<lparr>negated = False,
              atom = Predicate EQUALITY_SYMBOL_ID [Function a [], Function b []]\<rparr>,
            \<lparr>negated = False,
              atom = Predicate EQUALITY_SYMBOL_ID [Variable x, Variable x]\<rparr>],
          label = Some ''one'', inference_parents = None, inference_rule = None\<rparr>]
           \<lparr>literals =
           [\<lparr>negated = False,
              atom = Predicate EQUALITY_SYMBOL_ID [Function b [], Function c []]\<rparr>],
         label = Some ''two'', inference_parents = None, inference_rule = None\<rparr>
         = Inr paramodulants \<and> length paramodulants = 6))
   \<and> (\<not> negated literal_one \<and> index (atom literal_one) = EQUALITY_SYMBOL_ID
        \<and> arguments (atom literal_one) = [s, t] \<and> s \<noteq> t \<longrightarrow>
      all_paramodulants_from_clause order lorder EQUALITY_SYMBOL_ID clause_one literal_one
        clause_two literal_two
      = Inr (concat (map (\<lambda>k.
          successes
            (paramodulation order lorder clause_one (s, t) clause_two literal_two k)
          @ successes
              (paramodulation order lorder clause_one (t, s) clause_two literal_two k))
         [1 ..< proposition_length (atom literal_two)])))"
proof (intro conjI impI)
  assume "distinct [a, b, c]"
  then have "a \<noteq> b" "b \<noteq> a" "a \<noteq> c" "c \<noteq> a" "b \<noteq> c" "c \<noteq> b" by auto
  then show "(\<exists>paramodulants.
         all_paramodulants_from_list order lorder EQUALITY_SYMBOL_ID
           [\<lparr>literals =
           [\<lparr>negated = False,
              atom = Predicate EQUALITY_SYMBOL_ID [Function a [], Function b []]\<rparr>,
            \<lparr>negated = False,
              atom = Predicate EQUALITY_SYMBOL_ID [Variable x, Variable x]\<rparr>],
          label = Some ''one'', inference_parents = None, inference_rule = None\<rparr>]
           \<lparr>literals =
           [\<lparr>negated = False,
              atom = Predicate EQUALITY_SYMBOL_ID [Function b [], Function c []]\<rparr>],
         label = Some ''two'', inference_parents = None, inference_rule = None\<rparr>
         = Inr paramodulants \<and> length paramodulants = 6)"
    by (rule example_count)
next
  assume "\<not> negated literal_one \<and> index (atom literal_one) = EQUALITY_SYMBOL_ID
        \<and> arguments (atom literal_one) = [s, t] \<and> s \<noteq> t"
  then show "all_paramodulants_from_clause order lorder EQUALITY_SYMBOL_ID clause_one literal_one
        clause_two literal_two
      = Inr (concat (map (\<lambda>k.
          successes
            (paramodulation order lorder clause_one (s, t) clause_two literal_two k)
          @ successes
              (paramodulation order lorder clause_one (t, s) clause_two literal_two k))
         [1 ..< proposition_length (atom literal_two)]))"
    by (intro all_paramodulants_from_clause_positions) simp_all
qed

theorem paramodulation_example_witness:
  "distinct [1 :: int, 2, 3]
   \<and> (\<exists>paramodulants.
         all_paramodulants_from_list remdups remdups 0
           [\<lparr>literals =
           [\<lparr>negated = False,
              atom = Predicate 0 [Function 1 [], Function 2 []]\<rparr>,
            \<lparr>negated = False,
              atom = Predicate 0 [Variable 0, Variable 0]\<rparr>],
          label = Some ''one'', inference_parents = None, inference_rule = None\<rparr>]
           \<lparr>literals =
           [\<lparr>negated = False,
              atom = Predicate 0 [Function 2 [], Function 3 []]\<rparr>],
         label = Some ''two'', inference_parents = None, inference_rule = None\<rparr>
         = Inr paramodulants \<and> length paramodulants = 6)
   \<and> \<not> negated \<lparr>negated = False, atom = Predicate 0 [Function 1 [], Function 2 []]\<rparr>
   \<and> index (atom \<lparr>negated = False, atom = Predicate 0 [Function 1 [], Function 2 []]\<rparr>) = 0
   \<and> arguments (atom \<lparr>negated = False, atom = Predicate 0 [Function 1 [], Function 2 []]\<rparr>)
       = [Function 1 [], Function 2 []]
   \<and> Function 1 [] \<noteq> Function 2 []
   \<and> all_paramodulants_from_clause remdups remdups 0 (Clause_of []) 
          \<lparr>negated = False, atom = Predicate 0 [Function 1 [], Function 2 []]\<rparr>
        (Clause_of []) 
          \<lparr>negated = False, atom = Predicate 3 [Function 1 []]\<rparr>
      = Inr (concat (map (\<lambda>k.
          successes
            (paramodulation remdups remdups (Clause_of []) (Function 1 [], Function 2 []) (Clause_of []) 
          \<lparr>negated = False, atom = Predicate 3 [Function 1 []]\<rparr> k)
          @ successes
              (paramodulation remdups remdups (Clause_of []) (Function 2 [], Function 1 []) (Clause_of []) 
          \<lparr>negated = False, atom = Predicate 3 [Function 1 []]\<rparr> k))
         [1 ..< proposition_length (atom 
          \<lparr>negated = False, atom = Predicate 3 [Function 1 []]\<rparr>)]))"
proof -
  have d: "distinct [1 :: int, 2, 3]" by simp
  have h1: "\<not> negated \<lparr>negated = False, atom = Predicate 0 [Function 1 [], Function 2 []]\<rparr>"
    by simp
  have h2: "index (atom \<lparr>negated = False, atom = Predicate 0 [Function 1 [], Function 2 []]\<rparr>) = 0"
    by simp
  have h3: "arguments (atom \<lparr>negated = False, atom = Predicate 0 [Function 1 [], Function 2 []]\<rparr>)
       = [Function 1 [], Function 2 []]"
    by simp
  have h4: "Function 1 [] \<noteq> Function 2 []" by simp
  note h = conjI [OF h1 conjI [OF h2 conjI [OF h3 h4]]]
  show ?thesis
    by (intro conjI d h1 h2 h3 h4
        paramodulation_example [THEN conjunct1, THEN mp, OF d]
        paramodulation_example [THEN conjunct2, THEN mp, OF h])
qed

end
